theory Spec2Isabelle
  imports Main
begin

section \<open>Python values\<close>

text \<open>
  A Python \<^verbatim>\<open>str\<close> is a sequence of Unicode code points, and \<^verbatim>\<open>len\<close> counts code
  points: a string is a list of naturals. Python integers are unbounded: \<^typ>\<open>int\<close>.
\<close>

type_synonym pystr = "nat list"

text \<open>
  The code points of a literal whose characters all lie below U+0100 (every ASCII word).
\<close>

definition str :: "string \<Rightarrow> pystr" where
  "str s = map of_char s"

datatype py_error = ValueError | IndexError

subsection \<open>The runtime's character tables\<close>

text \<open>
  \<^verbatim>\<open>str.lower\<close> and \<^verbatim>\<open>str.isalpha\<close> read the Unicode character database of the
  interpreter, which is no part of the repository. Below U+0100 the tables are written out
  here as that database has them: the letters are A-Z, a-z, U+00AA, U+00B5, U+00BA and U+00C0-U+00FF without the two
  signs U+00D7 and U+00F7; the capitals A-Z and U+00C0-U+00DE (without U+00D7) are lowered
  by adding 32. From U+0100 on the tables are a parameter: \<open>isalpha_hi db c\<close> says whether
  \<open>c\<close> is alphabetic, and \<open>lower_hi db s i\<close> is what lowering writes for the code point
  at index \<open>i\<close> of \<open>s\<close> (one code point may become several, and U+03A3 is lowered by
  its context, so the function sees the whole string).
\<close>

record unicode_db =
  isalpha_hi :: "nat \<Rightarrow> bool"
  lower_hi :: "pystr \<Rightarrow> nat \<Rightarrow> pystr"

definition latin1_lower :: "nat \<Rightarrow> nat" where
  "latin1_lower c =
     (if (65 \<le> c \<and> c \<le> 90) \<or> (192 \<le> c \<and> c \<le> 222 \<and> c \<noteq> 215) then c + 32 else c)"

definition latin1_isalpha :: "nat \<Rightarrow> bool" where
  "latin1_isalpha c \<longleftrightarrow>
     (65 \<le> c \<and> c \<le> 90) \<or> (97 \<le> c \<and> c \<le> 122) \<or> c = 170 \<or> c = 181 \<or> c = 186 \<or>
     (192 \<le> c \<and> c \<le> 255 \<and> c \<noteq> 215 \<and> c \<noteq> 247)"

definition py_isalpha :: "unicode_db \<Rightarrow> nat \<Rightarrow> bool" where
  "py_isalpha db c = (if c < 256 then latin1_isalpha c else isalpha_hi db c)"

fun lower_from :: "unicode_db \<Rightarrow> pystr \<Rightarrow> nat \<Rightarrow> pystr \<Rightarrow> pystr" where
  "lower_from db s i [] = []"
| "lower_from db s i (c # cs) =
     (if c < 256 then [latin1_lower c] else lower_hi db s i) @ lower_from db s (Suc i) cs"

definition py_lower :: "unicode_db \<Rightarrow> pystr \<Rightarrow> pystr" where
  "py_lower db s = lower_from db s 0 s"

text \<open>
  A fragment of the tables above Latin-1, for closed instances: the basic Cyrillic letters
  U+0410-U+044F, whose capitals are lowered by adding 32, and U+0130, whose lowering is the
  two code points U+0069 U+0307.
\<close>

definition sample_db :: unicode_db where
  "sample_db =
     \<lparr>isalpha_hi = (\<lambda>c. (1040 \<le> c \<and> c \<le> 1103) \<or> c = 304),
      lower_hi = (\<lambda>s i. let c = s ! i in
                    if 1040 \<le> c \<and> c \<le> 1071 then [c + 32]
                    else if c = 304 then [105, 775] else [c])\<rparr>"

subsection \<open>Dictionaries\<close>

text \<open>
  A Python \<^verbatim>\<open>dict\<close> keeps its keys in insertion order and the loops below iterate
  over \<^verbatim>\<open>items()\<close>: a dictionary is an association list with one entry per key.
  \<open>dict_set\<close> is \<^verbatim>\<open>d[k] = v\<close>, \<open>dict_append\<close> is \<^verbatim>\<open>d[k].append(x)\<close> on a
  \<^verbatim>\<open>defaultdict(list)\<close>, \<open>dict_get\<close> is \<^verbatim>\<open>d.get(k, default)\<close>.
\<close>

fun dict_set :: "'k \<Rightarrow> 'v \<Rightarrow> ('k \<times> 'v) list \<Rightarrow> ('k \<times> 'v) list" where
  "dict_set k v [] = [(k, v)]"
| "dict_set k v ((k', v') # d) = (if k' = k then (k, v) # d else (k', v') # dict_set k v d)"

fun dict_append :: "'k \<Rightarrow> 'v \<Rightarrow> ('k \<times> 'v list) list \<Rightarrow> ('k \<times> 'v list) list" where
  "dict_append k x [] = [(k, [x])]"
| "dict_append k x ((k', xs) # d) =
     (if k' = k then (k, xs @ [x]) # d else (k', xs) # dict_append k x d)"

definition dict_get :: "('k \<times> 'v) list \<Rightarrow> 'k \<Rightarrow> 'v \<Rightarrow> 'v" where
  "dict_get d k dflt = (case map_of d k of None \<Rightarrow> dflt | Some v \<Rightarrow> v)"

section \<open>LetterSum\<close>

text \<open>
  \<^verbatim>\<open>sum(ord(i) - 96 for i in string.lower() if i.isalpha())\<close>
\<close>

definition calculate :: "unicode_db \<Rightarrow> pystr \<Rightarrow> int" where
  "calculate db string =
     sum_list (map (\<lambda>i. int i - 96) (filter (py_isalpha db) (py_lower db string)))"

section \<open>WordAnalyzer\<close>

text \<open>
  The fields of the object, and the lines written to standard output. The file name is
  only used to open the file and is left out.
\<close>

record analyzer =
  odd_letter_count :: nat
  most_common_words :: "(int \<times> pystr list) list"
  word_pairs_length_diff :: "(pystr \<times> pystr) list"
  word_pairs_no_common :: "(pystr \<times> pystr) list"
  words_length_and_sum :: "((nat \<times> int) \<times> pystr) list"
  MAXLEN :: nat
  MAXSUM :: int
  printed :: "pystr list"

definition init :: analyzer where
  "init = \<lparr>odd_letter_count = 0, most_common_words = [], word_pairs_length_diff = [],
            word_pairs_no_common = [], words_length_and_sum = [], MAXLEN = 0, MAXSUM = 0,
            printed = []\<rparr>"

definition process_line :: "unicode_db \<Rightarrow> analyzer \<Rightarrow> pystr \<Rightarrow> analyzer" where
  "process_line db self line =
     (let ls = calculate db line;
          self1 = (if ls = 319 then self\<lparr>printed := printed self @ [line]\<rparr> else self);
          self2 = (if ls mod 2 \<noteq> 0
                   then self1\<lparr>odd_letter_count := odd_letter_count self1 + 1\<rparr> else self1)
      in self2\<lparr>most_common_words := dict_append ls line (most_common_words self2),
                words_length_and_sum :=
                  dict_set (length line, ls) line (words_length_and_sum self2),
                MAXLEN := max (MAXLEN self2) (length line),
                MAXSUM := max (MAXSUM self2) ls\<rparr>)"

text \<open>
  \<open>process_lines\<close> is a run of \<^verbatim>\<open>_process_line\<close> calls, one per line in order.
  \<open>process_file\<close> gets the lines the open file yields and strips the newlines at both
  ends of each (\<^verbatim>\<open>line.strip("\n")\<close>) first.
\<close>

definition process_lines :: "unicode_db \<Rightarrow> analyzer \<Rightarrow> pystr list \<Rightarrow> analyzer" where
  "process_lines db self lines = foldl (process_line db) self lines"

definition strip_newlines :: "pystr \<Rightarrow> pystr" where
  "strip_newlines line =
     rev (dropWhile (\<lambda>c. c = 10) (rev (dropWhile (\<lambda>c. c = 10) line)))"

definition process_file :: "unicode_db \<Rightarrow> analyzer \<Rightarrow> pystr list \<Rightarrow> analyzer" where
  "process_file db self file_lines = process_lines db self (map strip_newlines file_lines)"

subsection \<open>Pairs whose lengths differ\<close>

definition group_by_length :: "pystr list \<Rightarrow> (int \<times> pystr list) list" where
  "group_by_length words = foldl (\<lambda>d word. dict_append (int (length word)) word d) [] words"

definition bucket_length_diff_pairs :: "int \<Rightarrow> pystr list \<Rightarrow> (pystr \<times> pystr) list" where
  "bucket_length_diff_pairs length_diff words =
     (let length_dict = group_by_length words in
      concat (map (\<lambda>(base_length, base_words).
                let target_length = base_length + length_diff in
                (case map_of length_dict target_length of
                   None \<Rightarrow> []
                 | Some target_words \<Rightarrow>
                     concat (map (\<lambda>w1. map (\<lambda>w2. (w1, w2)) target_words) base_words)))
              length_dict))"

definition length_diff_pairs :: "(int \<times> pystr list) list \<Rightarrow> int \<Rightarrow> (pystr \<times> pystr) list" where
  "length_diff_pairs index length_diff =
     concat (map (\<lambda>(_, words). bucket_length_diff_pairs length_diff words) index)"

definition find_length_diff_pairs :: "analyzer \<Rightarrow> int \<Rightarrow> analyzer" where
  "find_length_diff_pairs self length_diff =
     self\<lparr>word_pairs_length_diff :=
            word_pairs_length_diff self @ length_diff_pairs (most_common_words self) length_diff\<rparr>"

subsection \<open>Pairs with no letter in common\<close>

definition bucket_no_common_pairs :: "pystr list \<Rightarrow> (pystr \<times> pystr) list" where
  "bucket_no_common_pairs vals =
     (let num_values = length vals in
      if 2 \<le> num_values then
        concat (map (\<lambda>start.
                  concat (map (\<lambda>end.
                            if set (vals ! start) \<inter> set (vals ! end) = {}
                            then [(vals ! start, vals ! end)] else [])
                          [start + 1..<num_values]))
                [0..<num_values - 1])
      else [])"

definition no_common_pairs :: "(int \<times> pystr list) list \<Rightarrow> int \<Rightarrow> (pystr \<times> pystr) list" where
  "no_common_pairs index min_sum =
     concat (map (\<lambda>(key, vals). if min_sum < key then bucket_no_common_pairs vals else [])
              index)"

definition find_no_common_pairs :: "analyzer \<Rightarrow> int \<Rightarrow> analyzer" where
  "find_no_common_pairs self min_sum =
     self\<lparr>word_pairs_no_common :=
            word_pairs_no_common self @ no_common_pairs (most_common_words self) min_sum\<rparr>"

definition analyze_word_pais :: "analyzer \<Rightarrow> int \<Rightarrow> analyzer" where
  "analyze_word_pais self length_diff =
     find_no_common_pairs (find_length_diff_pairs self length_diff) 188"

subsection \<open>The longest list\<close>

text \<open>
  \<open>scan_sums\<close> is the loop over \<^verbatim>\<open>letter_sum\<close> that stops at the first sum with a word
  of the given length: \<^verbatim>\<open>get(key, "")\<close> is tested for truth, and the empty string is
  false.
\<close>

fun scan_sums :: "((nat \<times> int) \<times> pystr) list \<Rightarrow> nat \<Rightarrow> int list \<Rightarrow> (int \<times> pystr) option" where
  "scan_sums d len [] = None"
| "scan_sums d len (letter_sum # sums) =
     (let word = dict_get d (len, letter_sum) [] in
      if word \<noteq> [] then Some (letter_sum, word) else scan_sums d len sums)"

text \<open>
  One chain at one length: the chain as it is afterwards (extended in place when the word
  found has the very next sum) and the chains it adds to \<^verbatim>\<open>templist\<close>.
  \<^verbatim>\<open>chain[-1]\<close> raises on an empty chain.
\<close>

definition extend_chain ::
  "unicode_db \<Rightarrow> analyzer \<Rightarrow> nat \<Rightarrow> pystr list \<Rightarrow> py_error + (pystr list \<times> pystr list list)" where
  "extend_chain db self len chain =
     (if chain = [] then Inl IndexError
      else
        let next_sum = calculate db (last chain) + 1 in
        (case scan_sums (words_length_and_sum self) len [next_sum..MAXSUM self - 1] of
           None \<Rightarrow> Inr (chain, [])
         | Some (letter_sum, word) \<Rightarrow>
             if letter_sum = next_sum then Inr (chain @ [word], [])
             else Inr (chain, [chain @ [word]])))"

fun extend_chains ::
  "unicode_db \<Rightarrow> analyzer \<Rightarrow> nat \<Rightarrow> pystr list list \<Rightarrow>
     py_error + (pystr list list \<times> pystr list list)" where
  "extend_chains db self len [] = Inr ([], [])"
| "extend_chains db self len (chain # rest) =
     (case extend_chain db self len chain of
        Inl e \<Rightarrow> Inl e
      | Inr (chain', new) \<Rightarrow>
          (case extend_chains db self len rest of
             Inl e \<Rightarrow> Inl e
           | Inr (rest', templist) \<Rightarrow> Inr (chain' # rest', new @ templist)))"

definition length_step ::
  "unicode_db \<Rightarrow> analyzer \<Rightarrow> nat \<Rightarrow> pystr list list \<Rightarrow> py_error + pystr list list" where
  "length_step db self len chainlist =
     (case extend_chains db self len chainlist of
        Inl e \<Rightarrow> Inl e
      | Inr (chainlist', templist) \<Rightarrow>
          (case scan_sums (words_length_and_sum self) len [1..MAXSUM self - 1] of
             None \<Rightarrow> Inr (chainlist' @ templist)
           | Some (_, word) \<Rightarrow> Inr (chainlist' @ templist @ [[word]])))"

fun length_loop ::
  "unicode_db \<Rightarrow> analyzer \<Rightarrow> nat list \<Rightarrow> pystr list list \<Rightarrow> py_error + pystr list list" where
  "length_loop db self [] chainlist = Inr chainlist"
| "length_loop db self (len # lens) chainlist =
     (case length_step db self len chainlist of
        Inl e \<Rightarrow> Inl e
      | Inr chainlist' \<Rightarrow> length_loop db self lens chainlist')"

text \<open>
  \<^verbatim>\<open>max(chainlist, key=len)\<close>: the first of the longest, and ValueError on an empty list.
\<close>

fun max_by_len :: "'a list list \<Rightarrow> py_error + 'a list" where
  "max_by_len [] = Inl ValueError"
| "max_by_len (c # cs) =
     Inr (foldl (\<lambda>best x. if length best < length x then x else best) c cs)"

definition find_longest_unique :: "unicode_db \<Rightarrow> analyzer \<Rightarrow> py_error + pystr list" where
  "find_longest_unique db self =
     (case length_loop db self (rev [1..<Suc (MAXLEN self)]) [] of
        Inl e \<Rightarrow> Inl e
      | Inr chainlist \<Rightarrow> max_by_len chainlist)"

section \<open>Properties the statements use\<close>

text \<open>
  The letter value in the words of the specification: the position in the alphabet,
  \<open>a\<close> = 1 to \<open>z\<close> = 26, of the lowered character when it is an ASCII letter.
\<close>

definition ascii_letter :: "nat \<Rightarrow> bool" where
  "ascii_letter c \<longleftrightarrow> (65 \<le> c \<and> c \<le> 90) \<or> (97 \<le> c \<and> c \<le> 122)"

definition ascii_lower :: "nat \<Rightarrow> nat" where
  "ascii_lower c = (if 65 \<le> c \<and> c \<le> 90 then c + 32 else c)"

definition position_in_alphabet :: "nat \<Rightarrow> int" where
  "position_in_alphabet c =
     1 + int (length (takeWhile (\<lambda>x. x \<noteq> c) (str ''abcdefghijklmnopqrstuvwxyz'')))"

text \<open>
  What the character at index \<open>i\<close> of \<open>s\<close> adds to the letter sum: an ASCII letter
  its position in the alphabet; another character below U+0100 the code point of its
  lowercase form minus 96 when it is a letter and 0 when it is none; a character from
  U+0100 on \<^verbatim>\<open>ord(x) - 96\<close> for each alphabetic \<open>x\<close> that lowering writes for it.
\<close>

definition contribution :: "unicode_db \<Rightarrow> pystr \<Rightarrow> nat \<Rightarrow> int" where
  "contribution db s i =
     (let c = s ! i in
      if ascii_letter c then position_in_alphabet (ascii_lower c)
      else if c < 256 then (if latin1_isalpha c then int (latin1_lower c) - 96 else 0)
      else (\<Sum>x\<leftarrow>lower_hi db s i. if py_isalpha db x then int x - 96 else 0))"

text \<open>
  Lowering is stable when every code point it writes is one it leaves alone wherever it
  stands: the property of the runtime's tables under which lowering twice is lowering once.
\<close>

definition lower_fixed :: "unicode_db \<Rightarrow> nat \<Rightarrow> bool" where
  "lower_fixed db c \<longleftrightarrow>
     (if c < 256 then latin1_lower c = c
      else \<forall>s i. i < length s \<and> s ! i = c \<longrightarrow> lower_hi db s i = [c])"

definition lower_stable :: "unicode_db \<Rightarrow> bool" where
  "lower_stable db \<longleftrightarrow>
     (\<forall>s i. i < length s \<and> 256 \<le> s ! i \<longrightarrow> (\<forall>c\<in>set (lower_hi db s i). lower_fixed db c))"

text \<open>
  The indices agree with the words they hold: an entry under the key \<open>(l, s)\<close> has length
  \<open>l\<close> and letter sum \<open>s\<close>, and every word of the bucket of \<open>s\<close> has letter sum \<open>s\<close>.
\<close>

definition sum_index_ok :: "unicode_db \<Rightarrow> (int \<times> pystr list) list \<Rightarrow> bool" where
  "sum_index_ok db index \<longleftrightarrow> (\<forall>(key, vals)\<in>set index. \<forall>w\<in>set vals. calculate db w = key)"

definition index_consistent :: "unicode_db \<Rightarrow> analyzer \<Rightarrow> bool" where
  "index_consistent db self \<longleftrightarrow>
     (\<forall>((l, s), w)\<in>set (words_length_and_sum self). length w = l \<and> calculate db w = s) \<and>
     sum_index_ok db (most_common_words self)"

text \<open>
  A chain as the specification wants it: lengths strictly descending and letter sums
  strictly ascending.
\<close>

definition chain_ok :: "unicode_db \<Rightarrow> pystr list \<Rightarrow> bool" where
  "chain_ok db chain \<longleftrightarrow>
     sorted_wrt (\<lambda>a b. length b < length a \<and> calculate db a < calculate db b) chain"

text \<open>
  What the loop over the lengths keeps of every chain of \<^verbatim>\<open>chainlist\<close>: it is not
  empty, it is a chain of words of the index, its last word has at least the length
  \<open>b\<close> (the length the loop has reached), and the letter sums of its words are below
  \<open>MAXSUM\<close>.
\<close>

definition chain_inv :: "unicode_db \<Rightarrow> analyzer \<Rightarrow> nat \<Rightarrow> pystr list \<Rightarrow> bool" where
  "chain_inv db self b chain \<longleftrightarrow>
     chain \<noteq> [] \<and> chain_ok db chain \<and> b \<le> length (last chain) \<and>
     set chain \<subseteq> snd ` set (words_length_and_sum self) \<and>
     (\<forall>w\<in>set chain. calculate db w < MAXSUM self)"

section \<open>Letter sums\<close>

lemma drop_eq_Cons:
  assumes "c # cs = drop i s"
  shows "i < length s \<and> s ! i = c \<and> cs = drop (Suc i) s"
proof -
  have i: "i < length s"
    using assms by (cases "i < length s") auto
  from Cons_nth_drop_Suc [OF i] assms have "s ! i # drop (Suc i) s = c # cs"
    by simp
  with i show ?thesis
    by simp
qed

lemma latin1_lower_less: "c < 256 \<Longrightarrow> latin1_lower c < 256"
  by (auto simp: latin1_lower_def)

lemma latin1_lower_idem: "latin1_lower (latin1_lower c) = latin1_lower c"
  by (auto simp: latin1_lower_def)

lemma latin1_isalpha_lower: "c < 256 \<Longrightarrow> latin1_isalpha (latin1_lower c) = latin1_isalpha c"
  by (auto simp: latin1_lower_def latin1_isalpha_def)

lemma lower_from_latin1: "\<forall>c\<in>set cs. c < 256 \<Longrightarrow> lower_from db s i cs = map latin1_lower cs"
  by (induction cs arbitrary: i) auto

lemma py_lower_latin1: "\<forall>c\<in>set s. c < 256 \<Longrightarrow> py_lower db s = map latin1_lower s"
  by (simp add: py_lower_def lower_from_latin1)

lemma calculate_filter:
  "calculate db s = (\<Sum>c\<leftarrow>py_lower db s. if py_isalpha db c then int c - 96 else 0)"
proof -
  have "sum_list (map f (filter P xs)) = (\<Sum>c\<leftarrow>xs. if P c then f c else 0)"
    for f :: "nat \<Rightarrow> int" and P xs
    by (induction xs) auto
  then show ?thesis by (simp add: calculate_def)
qed

lemma calculate_latin1:
  assumes "\<forall>c\<in>set s. c < 256"
  shows "calculate db s
           = (\<Sum>c\<leftarrow>s. if latin1_isalpha c then int (latin1_lower c) - 96 else 0)"
  using assms
proof (induction s)
  case Nil
  show ?case by (simp add: calculate_def py_lower_def)
next
  case (Cons c s)
  then have "calculate db s
      = (\<Sum>c\<leftarrow>s. if latin1_isalpha c then int (latin1_lower c) - 96 else 0)"
    by simp
  moreover have "calculate db (c # s) =
      (if latin1_isalpha c then int (latin1_lower c) - 96 else 0) + calculate db s"
    using Cons.prems
    by (simp add: calculate_def py_lower_latin1 py_isalpha_def latin1_lower_less
        latin1_isalpha_lower)
  ultimately show ?case by simp
qed

lemma alphabet_positions:
  "\<forall>c\<in>set [97..<123]. position_in_alphabet c = int c - 96"
  by code_simp

lemma position_in_alphabet_letter:
  assumes "ascii_letter c"
  shows "position_in_alphabet (ascii_lower c) = int (latin1_lower c) - 96"
proof -
  have eq: "ascii_lower c = latin1_lower c"
    using assms by (auto simp: ascii_letter_def ascii_lower_def latin1_lower_def)
  have "\<forall>c\<in>{97..<123}. position_in_alphabet c = int c - 96"
    unfolding atLeastLessThan_upt by (rule alphabet_positions)
  moreover have "latin1_lower c \<in> {97..<123}"
    using assms by (auto simp: ascii_letter_def latin1_lower_def)
  ultimately show ?thesis using eq by auto
qed

lemma position_in_alphabet_range:
  "ascii_letter c \<Longrightarrow>
     1 \<le> position_in_alphabet (ascii_lower c) \<and> position_in_alphabet (ascii_lower c) \<le> 26"
  by (auto simp: position_in_alphabet_letter ascii_letter_def latin1_lower_def)

lemma ascii_letter_latin1: "ascii_letter c \<Longrightarrow> c < 256 \<and> latin1_isalpha c"
  by (auto simp: ascii_letter_def latin1_isalpha_def)

lemma lower_from_contributions:
  "cs = drop i s \<Longrightarrow>
     (\<Sum>x\<leftarrow>lower_from db s i cs. if py_isalpha db x then int x - 96 else 0)
       = (\<Sum>j\<leftarrow>[i..<length s]. contribution db s j)"
proof (induction cs arbitrary: i)
  case Nil
  then have "length s \<le> i" by simp
  then show ?case by simp
next
  case (Cons c cs)
  from drop_eq_Cons [OF Cons.prems]
  have i: "i < length s" and c: "s ! i = c" and cs: "cs = drop (Suc i) s"
    by simp_all
  have piece: "(\<Sum>x\<leftarrow>(if c < 256 then [latin1_lower c] else lower_hi db s i).
                   if py_isalpha db x then int x - 96 else 0) = contribution db s i"
  proof (cases "c < 256")
    case True
    then have "(\<Sum>x\<leftarrow>[latin1_lower c]. if py_isalpha db x then int x - 96 else 0)
                 = (if latin1_isalpha c then int (latin1_lower c) - 96 else 0)"
      by (simp add: py_isalpha_def latin1_lower_less latin1_isalpha_lower)
    also have "\<dots> = contribution db s i"
      using True ascii_letter_latin1 [of c]
      by (auto simp: contribution_def c position_in_alphabet_letter)
    finally show ?thesis using True by simp
  next
    case False
    then have "\<not> ascii_letter c"
      using ascii_letter_latin1 [of c] by blast
    with False show ?thesis
      by (simp add: contribution_def c)
  qed
  from i have "[i..<length s] = i # [Suc i..<length s]"
    by (rule upt_conv_Cons)
  with piece Cons.IH [OF cs] show ?case
    by simp
qed

lemma calculate_contributions:
  "calculate db s = (\<Sum>i\<leftarrow>[0..<length s]. contribution db s i)"
  using lower_from_contributions [of s 0 s db]
  by (simp add: calculate_filter py_lower_def)

text \<open>
  C4, as the code has it. The filter of \<^verbatim>\<open>calculate\<close> is \<^verbatim>\<open>i.isalpha()\<close>, which
  holds of the letters outside ASCII too. The letter sum of every string is the sum of what
  its characters contribute one by one. An ASCII letter contributes its position in the
  alphabet (\<open>a\<close> = 1 to \<open>z\<close> = 26, of the lowered letter). Any other character
  contributes \<^verbatim>\<open>ord(x) - 96\<close> for each alphabetic character \<open>x\<close> of its lowercase form:
  below U+0100 that is 0 for a character that is no letter and the lowered code point
  minus 96 for a letter outside ASCII, which is not skipped.
\<close>

theorem letter_values:
  "calculate db s =
     (\<Sum>i\<leftarrow>[0..<length s].
        if ascii_letter (s ! i) then position_in_alphabet (ascii_lower (s ! i))
        else if s ! i < 256
          then (if latin1_isalpha (s ! i) then int (latin1_lower (s ! i)) - 96 else 0)
        else (\<Sum>x\<leftarrow>lower_hi db s i. if py_isalpha db x then int x - 96 else 0)) \<and>
   ((\<forall>c\<in>set s. c < 256) \<longrightarrow>
      calculate db s =
        (\<Sum>c\<leftarrow>s. if ascii_letter c then position_in_alphabet (ascii_lower c)
                else if latin1_isalpha c then int (latin1_lower c) - 96 else 0)) \<and>
   (\<forall>c. ascii_letter c \<longrightarrow>
      1 \<le> position_in_alphabet (ascii_lower c) \<and> position_in_alphabet (ascii_lower c) \<le> 26)"
proof -
  have general: "calculate db s =
     (\<Sum>i\<leftarrow>[0..<length s].
        if ascii_letter (s ! i) then position_in_alphabet (ascii_lower (s ! i))
        else if s ! i < 256
          then (if latin1_isalpha (s ! i) then int (latin1_lower (s ! i)) - 96 else 0)
        else (\<Sum>x\<leftarrow>lower_hi db s i. if py_isalpha db x then int x - 96 else 0))"
    using calculate_contributions [of db s] by (simp add: contribution_def Let_def)
  have same: "(if latin1_isalpha c then int (latin1_lower c) - 96 else 0) =
        (if ascii_letter c then position_in_alphabet (ascii_lower c)
         else if latin1_isalpha c then int (latin1_lower c) - 96 else 0)" for c
    using ascii_letter_latin1 [of c] by (auto simp: position_in_alphabet_letter)
  have latin1: "calculate db s =
        (\<Sum>c\<leftarrow>s. if ascii_letter c then position_in_alphabet (ascii_lower c)
                else if latin1_isalpha c then int (latin1_lower c) - 96 else 0)"
    if "\<forall>c\<in>set s. c < 256"
    using calculate_latin1 [OF that, of db] same by simp
  from general latin1 position_in_alphabet_range show ?thesis
    by blast
qed

theorem letter_values_witness:
  "calculate sample_db [233, 49, 97] = 137 + 0 + 1 \<and>
   calculate sample_db [65, 1040, 304] = 1 + 976 + 9"
proof -
  have small: "\<forall>c\<in>set [233, 49, 97 :: nat]. c < 256"
    by simp
  have "(\<Sum>c\<leftarrow>[233, 49, 97].
           if ascii_letter c then position_in_alphabet (ascii_lower c)
           else if latin1_isalpha c then int (latin1_lower c) - 96 else 0) = 137 + 0 + 1"
    by code_simp
  with small letter_values [of sample_db "[233, 49, 97]"]
  have a: "calculate sample_db [233, 49, 97] = 137 + 0 + 1"
    by simp
  have idx: "[0..<length [65, 1040, 304 :: nat]] = [0, 1, 2]"
    by code_simp
  have pos: "position_in_alphabet (ascii_lower 65) = 1"
    by code_simp
  have hi: "lower_hi sample_db [65, 1040, 304] (Suc 0) = [1072]"
    "lower_hi sample_db [65, 1040, 304] 2 = [105, 775]"
    by (simp_all add: sample_db_def)
  have alpha: "py_isalpha sample_db 1072" "py_isalpha sample_db 105"
    "\<not> py_isalpha sample_db 775"
    by (simp_all add: py_isalpha_def sample_db_def latin1_isalpha_def)
  from letter_values [of sample_db "[65, 1040, 304]"]
  have b: "calculate sample_db [65, 1040, 304] = 1 + 976 + 9"
    unfolding idx by (simp add: ascii_letter_def pos hi alpha)
  from a b show ?thesis by simp
qed

text \<open>
  C4 as stated fails at U+00E9 (\<open>e\<close> with acute accent, code point 233): it is no ASCII
  letter, \<^verbatim>\<open>isalpha\<close> holds of it, and it contributes 233 - 96 = 137.
\<close>

theorem non_ascii_letter_counted:
  "\<not> ascii_letter 233 \<and> calculate sample_db [233] = 137"
  by code_simp

subsection \<open>Case\<close>

lemma lower_from_fixed:
  "lower_stable db \<Longrightarrow> cs = drop i s \<Longrightarrow> \<forall>c\<in>set (lower_from db s i cs). lower_fixed db c"
proof (induction cs arbitrary: i)
  case Nil
  show ?case by simp
next
  case (Cons c cs)
  from drop_eq_Cons [OF Cons.prems(2)]
  have i: "i < length s" and c: "s ! i = c" and cs: "cs = drop (Suc i) s"
    by simp_all
  have "\<forall>x\<in>set (if c < 256 then [latin1_lower c] else lower_hi db s i). lower_fixed db x"
  proof (cases "c < 256")
    case True
    then show ?thesis
      by (simp add: lower_fixed_def latin1_lower_less latin1_lower_idem)
  next
    case False
    with i c have "i < length s \<and> 256 \<le> s ! i"
      by simp
    with Cons.prems(1) have "\<forall>x\<in>set (lower_hi db s i). lower_fixed db x"
      unfolding lower_stable_def by blast
    with False show ?thesis
      by simp
  qed
  with Cons.IH [OF Cons.prems(1) cs] show ?case
    by auto
qed

lemma lower_from_id:
  "\<forall>c\<in>set t. lower_fixed db c \<Longrightarrow> cs = drop i t \<Longrightarrow> lower_from db t i cs = cs"
proof (induction cs arbitrary: i)
  case Nil
  show ?case by simp
next
  case (Cons c cs)
  from drop_eq_Cons [OF Cons.prems(2)]
  have i: "i < length t" and c: "t ! i = c" and cs: "cs = drop (Suc i) t"
    by simp_all
  from i c have "c \<in> set t" by auto
  with Cons.prems(1) have "lower_fixed db c" by blast
  with i c have "(if c < 256 then [latin1_lower c] else lower_hi db t i) = [c]"
    by (auto simp: lower_fixed_def)
  with Cons.IH [OF Cons.prems(1) cs] show ?case
    by simp
qed

lemma py_lower_idem: "lower_stable db \<Longrightarrow> py_lower db (py_lower db s) = py_lower db s"
  using lower_from_fixed [of db s 0 s] lower_from_id [of "py_lower db s" db "py_lower db s" 0]
  by (simp add: py_lower_def)

lemma sample_db_stable: "lower_stable sample_db"
  by (auto simp: lower_stable_def lower_fixed_def sample_db_def Let_def latin1_lower_def)

lemma py_lower_idem_latin1:
  assumes "\<forall>c\<in>set s. c < 256"
  shows "py_lower db (py_lower db s) = py_lower db s"
proof -
  from assms have "\<forall>c\<in>set (map latin1_lower s). c < 256"
    by (simp add: latin1_lower_less)
  then have "py_lower db (map latin1_lower s) = map latin1_lower (map latin1_lower s)"
    by (rule py_lower_latin1)
  with assms show ?thesis
    by (simp add: py_lower_latin1 latin1_lower_idem)
qed

text \<open>
  C9. The letter sum of a string is the letter sum of its lowercase form:
  \<^verbatim>\<open>calculate\<close> lowers its argument first, and lowering a lowered string changes
  nothing. For a string of code points below U+0100 this holds whatever the tables of the
  runtime are above; for every other string what is used of the tables is
  \<open>lower_stable\<close>, that a code point written by \<^verbatim>\<open>str.lower\<close> is one it leaves
  alone.
\<close>

theorem calculate_lowercase:
  "lower_stable db \<or> (\<forall>c\<in>set s. c < 256) \<Longrightarrow>
     calculate db (py_lower db s) = calculate db s"
  by (auto simp: calculate_def py_lower_idem py_lower_idem_latin1)

theorem calculate_lowercase_witness:
  "lower_stable sample_db \<and>
   py_lower sample_db [304, 1040, 65, 233, 201, 98] = [105, 775, 1072, 97, 233, 233, 98] \<and>
   calculate sample_db (py_lower sample_db [304, 1040, 65, 233, 201, 98])
     = calculate sample_db [304, 1040, 65, 233, 201, 98] \<and>
   calculate sample_db [304, 1040, 65, 233, 201, 98] = 1262"
proof -
  have a: "py_lower sample_db [304, 1040, 65, 233, 201, 98] = [105, 775, 1072, 97, 233, 233, 98]"
    by code_simp
  have b: "calculate sample_db [304, 1040, 65, 233, 201, 98] = 1262"
    by code_simp
  from a b sample_db_stable
    calculate_lowercase [OF disjI1, OF sample_db_stable, of "[304, 1040, 65, 233, 201, 98]"]
  show ?thesis by simp
qed

section \<open>Dictionaries\<close>

lemma map_of_dict_set: "map_of (dict_set k v d) = (map_of d)(k \<mapsto> v)"
  by (induction d) (auto simp: fun_eq_iff)

lemma set_dict_set: "set (dict_set k v d) \<subseteq> insert (k, v) (set d)"
  by (induction d) (auto split: if_splits)

lemma map_of_dict_append:
  "map_of (dict_append k x d) =
     (map_of d)(k \<mapsto> (case map_of d k of None \<Rightarrow> [x] | Some xs \<Rightarrow> xs @ [x]))"
  by (induction d) (auto simp: fun_eq_iff)

lemma in_dict_append:
  "(k', ys) \<in> set (dict_append k x d) \<Longrightarrow>
     (k', ys) \<in> set d \<or> (k' = k \<and> (ys = [x] \<or> (\<exists>xs. (k, xs) \<in> set d \<and> ys = xs @ [x])))"
  by (induction d) (auto split: if_splits)

lemma keys_dict_append:
  "map fst (dict_append k x d) = (if k \<in> fst ` set d then map fst d else map fst d @ [k])"
  by (induction d) force+

lemma distinct_dict_append:
  "distinct (map fst d) \<Longrightarrow> distinct (map fst (dict_append k x d))"
  by (simp add: keys_dict_append)

section \<open>The build pass\<close>

lemma calculate_empty: "calculate db [] = 0"
  by (simp add: calculate_def py_lower_def)

lemma process_line_fields:
  "words_length_and_sum (process_line db self line) =
     dict_set (length line, calculate db line) line (words_length_and_sum self)"
  "most_common_words (process_line db self line) =
     dict_append (calculate db line) line (most_common_words self)"
  "MAXLEN (process_line db self line) = max (MAXLEN self) (length line)"
  "MAXSUM (process_line db self line) = max (MAXSUM self) (calculate db line)"
  "odd_letter_count (process_line db self line) =
     (if calculate db line mod 2 \<noteq> 0 then odd_letter_count self + 1 else odd_letter_count self)"
  "printed (process_line db self line) =
     (if calculate db line = 319 then printed self @ [line] else printed self)"
  "word_pairs_length_diff (process_line db self line) = word_pairs_length_diff self"
  "word_pairs_no_common (process_line db self line) = word_pairs_no_common self"
  by (simp_all add: process_line_def Let_def)

lemma process_lines_Nil: "process_lines db self [] = self"
  by (simp add: process_lines_def)

lemma process_lines_Cons:
  "process_lines db self (line # lines) = process_lines db (process_line db self line) lines"
  by (simp add: process_lines_def)

text \<open>
  What a run of lines leaves under one key: the last line with that length and letter sum,
  and the entry the index had before when no line has them.
\<close>

lemma retained_word:
  "map_of (words_length_and_sum (process_lines db self lines)) key =
     (let ws = filter (\<lambda>w. (length w, calculate db w) = key) lines
      in if ws = [] then map_of (words_length_and_sum self) key else Some (last ws))"
proof (induction lines arbitrary: self)
  case Nil
  show ?case by (simp add: process_lines_Nil)
next
  case (Cons line lines)
  show ?case
    by (simp add: process_lines_Cons Cons.IH process_line_fields map_of_dict_set Let_def)
qed

text \<open>
  C1, as the code has it. \<^verbatim>\<open>_process_line\<close> assigns
  \<^verbatim>\<open>words_length_and_sum[(len(line), ls)] = line\<close> without looking whether the key is
  there, so a later word replaces an earlier one. For every sequence of lines processed in
  order from a fresh analyzer and every pair \<open>(l, s)\<close>, the word kept under \<open>(l, s)\<close> is
  the LAST line of the sequence with length \<open>l\<close> and letter sum \<open>s\<close>, and \<open>(l, s)\<close> is
  no key when no line has that length and sum.
\<close>

theorem last_word_retained:
  "map_of (words_length_and_sum (process_lines db init lines)) (l, s) =
     (let ws = filter (\<lambda>w. length w = l \<and> calculate db w = s) lines
      in if ws = [] then None else Some (last ws))"
  using retained_word [of db init lines "(l, s)"] by (simp add: init_def Let_def)

text \<open>
  C1 as stated fails on the two lines \<open>ab\<close>, \<open>ba\<close>: both have length 2 and letter sum 3,
  the first of them in source order is \<open>ab\<close>, and the index holds \<open>ba\<close>.
\<close>

theorem first_word_overwritten:
  "find (\<lambda>w. length w = 2 \<and> calculate sample_db w = 3) [str ''ab'', str ''ba'']
     = Some (str ''ab'') \<and>
   map_of (words_length_and_sum (process_lines sample_db init [str ''ab'', str ''ba''])) (2, 3)
     = Some (str ''ba'') \<and>
   str ''ba'' \<noteq> str ''ab''"
  by code_simp

text \<open>
  C8. An empty line is processed like any other: \<^verbatim>\<open>_process_line\<close> has no failing
  branch (the model returns an analyzer, not an error), the letter sum and the length of
  the empty string are 0, the empty word is appended to the bucket of sum 0 (after the
  words the bucket held, in a new bucket when there was none), \<open>(0, 0)\<close> becomes a key of
  \<open>words_length_and_sum\<close> holding the empty word, and the counter of odd sums, the
  maximal length and the output are unchanged.
\<close>

theorem empty_line_processed:
  "calculate db [] = 0 \<and> length ([] :: pystr) = 0 \<and>
   most_common_words (process_line db self []) = dict_append 0 [] (most_common_words self) \<and>
   map_of (most_common_words (process_line db self [])) 0
     = Some (dict_get (most_common_words self) 0 [] @ [[]]) \<and>
   map_of (words_length_and_sum (process_line db self [])) (0, 0) = Some [] \<and>
   odd_letter_count (process_line db self []) = odd_letter_count self \<and>
   MAXLEN (process_line db self []) = MAXLEN self \<and>
   MAXSUM (process_line db self []) = max (MAXSUM self) 0 \<and>
   printed (process_line db self []) = printed self"
  by (simp add: process_line_fields calculate_empty map_of_dict_set map_of_dict_append
      dict_get_def split: option.splits)

subsection \<open>The indices agree with their words\<close>

lemma process_line_consistent:
  assumes "index_consistent db self"
  shows "index_consistent db (process_line db self line)"
proof -
  have "\<forall>((l, s), w)\<in>set (words_length_and_sum (process_line db self line)).
          length w = l \<and> calculate db w = s"
    using assms set_dict_set [of "(length line, calculate db line)" line "words_length_and_sum self"]
    by (auto simp: index_consistent_def process_line_fields)
  moreover have "sum_index_ok db (most_common_words (process_line db self line))"
    unfolding sum_index_ok_def process_line_fields
  proof (clarify)
    fix key vals w
    assume e: "(key, vals) \<in> set (dict_append (calculate db line) line (most_common_words self))"
      and w: "w \<in> set vals"
    have old: "\<And>k vs v. (k, vs) \<in> set (most_common_words self) \<Longrightarrow> v \<in> set vs
                 \<Longrightarrow> calculate db v = k"
      using assms by (auto simp: index_consistent_def sum_index_ok_def)
    from in_dict_append [OF e] w old show "calculate db w = key"
      by auto
  qed
  ultimately show ?thesis by (simp add: index_consistent_def)
qed

lemma process_lines_consistent:
  "index_consistent db self \<Longrightarrow> index_consistent db (process_lines db self lines)"
  by (induction lines arbitrary: self)
     (simp_all add: process_lines_Nil process_lines_Cons process_line_consistent)

lemma init_consistent: "index_consistent db init"
  by (simp add: index_consistent_def sum_index_ok_def init_def)

text \<open>
  C10. The indices are consistent with the words they hold (\<open>index_consistent\<close>: the word
  under a key \<open>(l, s)\<close> of \<open>words_length_and_sum\<close> has length \<open>l\<close> and letter sum \<open>s\<close>,
  and every word of the bucket \<open>s\<close> of \<open>most_common_words\<close> has letter sum \<open>s\<close>): this
  holds of the fresh analyzer, every \<^verbatim>\<open>_process_line\<close> call preserves it, and so it
  holds after any sequence of calls.
\<close>

theorem indices_consistent:
  "index_consistent db init \<and>
   (index_consistent db self \<longrightarrow> index_consistent db (process_line db self line)) \<and>
   index_consistent db (process_lines db init lines)"
  by (simp add: init_consistent process_line_consistent process_lines_consistent)

theorem indices_consistent_witness:
  "index_consistent sample_db (process_line sample_db init (str ''ab'')) \<and>
   words_length_and_sum
       (process_line sample_db (process_line sample_db init (str ''ab'')) (str ''ba''))
     = [((2, 3), str ''ba'')] \<and>
   most_common_words
       (process_line sample_db (process_line sample_db init (str ''ab'')) (str ''ba''))
     = [(3, [str ''ab'', str ''ba''])] \<and>
   index_consistent sample_db
     (process_line sample_db (process_line sample_db init (str ''ab'')) (str ''ba''))"
proof -
  have a: "index_consistent sample_db (process_line sample_db init (str ''ab''))"
    using indices_consistent [of sample_db init "str ''ab''"] by blast
  have b: "index_consistent sample_db
     (process_line sample_db (process_line sample_db init (str ''ab'')) (str ''ba''))"
    using a indices_consistent [of sample_db "process_line sample_db init (str ''ab'')" "str ''ba''"]
    by blast
  have c: "words_length_and_sum
       (process_line sample_db (process_line sample_db init (str ''ab'')) (str ''ba''))
     = [((2, 3), str ''ba'')]"
    by code_simp
  have d: "most_common_words
       (process_line sample_db (process_line sample_db init (str ''ab'')) (str ''ba''))
     = [(3, [str ''ab'', str ''ba''])]"
    by code_simp
  show ?thesis using a b c d by simp
qed

section \<open>Pairs whose lengths differ\<close>

lemma map_of_group_fold:
  "map_of (foldl (\<lambda>d word. dict_append (int (length word)) word d) d0 ws) L =
     (let g = filter (\<lambda>w. int (length w) = L) ws in
      case map_of d0 L of
        None \<Rightarrow> if g = [] then None else Some g
      | Some xs \<Rightarrow> Some (xs @ g))"
  by (induction ws arbitrary: d0) (auto simp: map_of_dict_append Let_def split: option.splits)

lemma map_of_group_by_length:
  "map_of (group_by_length ws) L =
     (let g = filter (\<lambda>w. int (length w) = L) ws in if g = [] then None else Some g)"
  using map_of_group_fold [of "[]" ws L] by (simp add: group_by_length_def)

lemma distinct_group_fold:
  "distinct (map fst d0) \<Longrightarrow>
     distinct (map fst (foldl (\<lambda>d word. dict_append (int (length word)) word d) d0 ws))"
  by (induction ws arbitrary: d0) (simp_all add: distinct_dict_append)

lemma distinct_group_by_length: "distinct (map fst (group_by_length ws))"
  using distinct_group_fold [of "[]" ws] by (simp add: group_by_length_def)

lemma in_group_by_length:
  "(L, g) \<in> set (group_by_length ws) \<longleftrightarrow>
     g = filter (\<lambda>w. int (length w) = L) ws \<and> g \<noteq> []"
proof -
  have "(L, g) \<in> set (group_by_length ws) \<longleftrightarrow> map_of (group_by_length ws) L = Some g"
    using distinct_group_by_length [of ws] by simp
  then show ?thesis
    by (auto simp: map_of_group_by_length Let_def)
qed

lemma set_bucket_length_diff_pairs:
  "set (bucket_length_diff_pairs length_diff words) =
     {(w1, w2). w1 \<in> set words \<and> w2 \<in> set words \<and>
                int (length w2) = int (length w1) + length_diff}"
  (is "?L = ?R")
proof -
  have "p \<in> ?L \<longleftrightarrow> p \<in> ?R" for p
  proof -
    obtain w1 w2 where p: "p = (w1, w2)" by (cases p)
    define h where "h = (\<lambda>e :: int \<times> pystr list.
        case map_of (group_by_length words) (fst e + length_diff) of
          None \<Rightarrow> []
        | Some target_words \<Rightarrow>
            concat (map (\<lambda>w1. map (\<lambda>w2. (w1, w2)) target_words) (snd e)))"
    have whole: "bucket_length_diff_pairs length_diff words
                   = concat (map h (group_by_length words))"
      by (simp add: bucket_length_diff_pairs_def Let_def h_def case_prod_unfold)
    have entry: "(w1, w2) \<in> set (h e) \<longleftrightarrow>
                 (\<exists>tw. map_of (group_by_length words) (fst e + length_diff) = Some tw \<and>
                       w1 \<in> set (snd e) \<and> w2 \<in> set tw)" for e
      unfolding h_def
      by (cases "map_of (group_by_length words) (fst e + length_diff)") auto
    have "p \<in> ?L \<longleftrightarrow> (\<exists>e\<in>set (group_by_length words). (w1, w2) \<in> set (h e))"
      by (simp add: whole p)
    also have "\<dots> \<longleftrightarrow>
      (\<exists>e\<in>set (group_by_length words).
          \<exists>tw. map_of (group_by_length words) (fst e + length_diff) = Some tw \<and>
            w1 \<in> set (snd e) \<and> w2 \<in> set tw)"
      by (simp only: entry)
    also have "\<dots> \<longleftrightarrow>
      (\<exists>L g. (L, g) \<in> set (group_by_length words) \<and>
          (\<exists>tw. map_of (group_by_length words) (L + length_diff) = Some tw \<and>
            w1 \<in> set g \<and> w2 \<in> set tw))"
      by (simp add: Bex_def)
    also have "\<dots> \<longleftrightarrow> (\<exists>L. w1 \<in> set (filter (\<lambda>w. int (length w) = L) words) \<and>
                      w2 \<in> set (filter (\<lambda>w. int (length w) = L + length_diff) words))"
      (is "?A \<longleftrightarrow> ?B")
    proof
      assume ?A
      then obtain L g tw where "(L, g) \<in> set (group_by_length words)"
        "map_of (group_by_length words) (L + length_diff) = Some tw"
        "w1 \<in> set g" "w2 \<in> set tw"
        by blast
      then have "w1 \<in> set (filter (\<lambda>w. int (length w) = L) words) \<and>
                 w2 \<in> set (filter (\<lambda>w. int (length w) = L + length_diff) words)"
        by (auto simp: in_group_by_length map_of_group_by_length Let_def split: if_splits)
      then show ?B ..
    next
      assume ?B
      then obtain L where w1: "w1 \<in> set (filter (\<lambda>w. int (length w) = L) words)"
        and w2: "w2 \<in> set (filter (\<lambda>w. int (length w) = L + length_diff) words)"
        by blast
      from w1 have "(L, filter (\<lambda>w. int (length w) = L) words) \<in> set (group_by_length words)"
        unfolding in_group_by_length by (auto simp: filter_empty_conv)
      moreover from w2 have "map_of (group_by_length words) (L + length_diff)
          = Some (filter (\<lambda>w. int (length w) = L + length_diff) words)"
        unfolding map_of_group_by_length Let_def by (auto simp: filter_empty_conv)
      ultimately show ?A
        using w1 w2 by blast
    qed
    also have "\<dots> \<longleftrightarrow> p \<in> ?R"
      by (auto simp: p)
    finally show ?thesis .
  qed
  then show ?thesis by blast
qed

lemma set_length_diff_pairs:
  "set (length_diff_pairs index length_diff) =
     {(w1, w2). \<exists>(key, words)\<in>set index. w1 \<in> set words \<and> w2 \<in> set words \<and>
                  int (length w2) - int (length w1) = length_diff}"
  by (auto simp: length_diff_pairs_def set_bucket_length_diff_pairs)

text \<open>How often a pair is appended: the cross product counts repeated words.\<close>

lemma count_list_concat_map:
  "count_list (concat (map h xs)) p = (\<Sum>e\<leftarrow>xs. count_list (h e) p)"
  by (induction xs) auto

lemma count_list_pairs:
  "count_list (concat (map (\<lambda>w1. map (\<lambda>w2. (w1, w2)) tw) bw)) (a, b)
     = count_list bw a * count_list tw b"
proof -
  have one: "count_list (map (\<lambda>w2. (w, w2)) tw) (a, b) = (if w = a then count_list tw b else 0)"
    for w
    by (induction tw) auto
  show ?thesis
    by (induction bw) (auto simp: one)
qed

lemma count_list_filter:
  "count_list (filter P xs) x = (if P x then count_list xs x else 0)"
  by (induction xs) auto

lemma sum_list_one_key:
  assumes "distinct (map fst d)" and "\<forall>e\<in>set d. fst e \<noteq> k \<longrightarrow> f e = (0::nat)"
  shows "sum_list (map f d) = (case map_of d k of None \<Rightarrow> 0 | Some v \<Rightarrow> f (k, v))"
  using assms
proof (induction d)
  case Nil
  show ?case by simp
next
  case (Cons e d)
  obtain k' v' where e: "e = (k', v')" by (cases e)
  show ?case
  proof (cases "k' = k")
    case True
    with Cons.prems e have "\<forall>x\<in>set d. f x = 0"
      by (auto simp: image_iff)
    then have "sum_list (map f d) = 0"
      by (induction d) auto
    with True e show ?thesis by simp
  next
    case False
    with Cons e show ?thesis by simp
  qed
qed

lemma count_bucket_length_diff_pairs:
  "count_list (bucket_length_diff_pairs length_diff words) (w1, w2) =
     (if int (length w2) = int (length w1) + length_diff
      then count_list words w1 * count_list words w2 else 0)"
proof -
  define G where "G = group_by_length words"
  define L where "L = int (length w1)"
  define f where "f = (\<lambda>e :: int \<times> pystr list.
        count_list (case map_of G (fst e + length_diff) of
          None \<Rightarrow> []
        | Some target_words \<Rightarrow>
            concat (map (\<lambda>w1. map (\<lambda>w2. (w1, w2)) target_words) (snd e))) (w1, w2))"
  have f: "f e = (case map_of G (fst e + length_diff) of
                    None \<Rightarrow> 0
                  | Some tw \<Rightarrow> count_list (snd e) w1 * count_list tw w2)" for e
    unfolding f_def by (cases "map_of G (fst e + length_diff)") (simp_all add: count_list_pairs)
  have whole: "count_list (bucket_length_diff_pairs length_diff words) (w1, w2)
                 = sum_list (map f G)"
    by (simp add: bucket_length_diff_pairs_def Let_def G_def f_def case_prod_unfold
        count_list_concat_map)
  have other: "\<forall>e\<in>set G. fst e \<noteq> L \<longrightarrow> f e = 0"
  proof (intro ballI impI)
    fix e assume "e \<in> set G" "fst e \<noteq> L"
    then have "snd e = filter (\<lambda>w. int (length w) = fst e) words" "int (length w1) \<noteq> fst e"
      using in_group_by_length [of "fst e" "snd e" words] by (auto simp: G_def L_def)
    then have "count_list (snd e) w1 = 0"
      by (simp add: count_list_filter)
    then show "f e = 0"
      by (simp add: f split: option.splits)
  qed
  have "sum_list (map f G) = (case map_of G L of None \<Rightarrow> 0 | Some g \<Rightarrow> f (L, g))"
    using sum_list_one_key [OF _ other] distinct_group_by_length [of words]
    by (simp add: G_def)
  also have "\<dots> = (if int (length w2) = int (length w1) + length_diff
                   then count_list words w1 * count_list words w2 else 0)"
  proof (cases "w1 \<in> set words")
    case False
    then have "filter (\<lambda>w. int (length w) = L) words = [] \<or> count_list words w1 = 0"
      by (simp add: count_list_0_iff)
    moreover have "count_list (filter (\<lambda>w. int (length w) = L) words) w1 = 0"
      using False by (simp add: count_list_filter count_list_0_iff)
    ultimately show ?thesis
      using False
      by (auto simp: G_def map_of_group_by_length Let_def f count_list_0_iff
          split: option.splits)
  next
    case True
    then have g: "map_of G L = Some (filter (\<lambda>w. int (length w) = L) words)"
      by (auto simp: G_def map_of_group_by_length Let_def L_def filter_empty_conv)
    have g1: "count_list (filter (\<lambda>w. int (length w) = L) words) w1 = count_list words w1"
      by (simp add: count_list_filter L_def)
    show ?thesis
    proof (cases "filter (\<lambda>w. int (length w) = L + length_diff) words = []")
      case True
      then have "int (length w2) = L + length_diff \<longrightarrow> w2 \<notin> set words"
        by (auto simp: filter_empty_conv)
      then have "int (length w2) = L + length_diff \<longrightarrow> count_list words w2 = 0"
        by (simp add: count_list_0_iff)
      with True g show ?thesis
        by (auto simp: f G_def map_of_group_by_length Let_def L_def)
    next
      case False
      then have "map_of G (L + length_diff)
                   = Some (filter (\<lambda>w. int (length w) = L + length_diff) words)"
        by (simp add: G_def map_of_group_by_length Let_def)
      with g g1 show ?thesis
        by (simp add: f count_list_filter L_def)
    qed
  qed
  finally show ?thesis
    using whole by simp
qed

lemma count_length_diff_pairs:
  "count_list (length_diff_pairs index length_diff) (w1, w2) =
     (\<Sum>(key, words)\<leftarrow>index.
        if int (length w2) = int (length w1) + length_diff
        then count_list words w1 * count_list words w2 else 0)"
  by (simp add: length_diff_pairs_def count_list_concat_map case_prod_unfold
      count_bucket_length_diff_pairs)

text \<open>
  C6. On a sum index whose buckets hold words of the bucket's sum, the pairs
  \<^verbatim>\<open>_find_length_diff_pairs\<close> appends are exactly the pairs \<open>(w1, w2)\<close> of two words
  of one bucket with \<open>len(w2) - len(w1) = length_diff\<close>: every word \<open>w1\<close> of a length
  \<open>L\<close> with every word \<open>w2\<close> of the length \<open>L + length_diff\<close> of the same bucket, and
  nothing else. So the two words of every pair have the same letter sum, and their lengths
  differ by \<open>length_diff\<close>. The cross product is full: a pair is appended once for every
  occurrence of \<open>w1\<close> and every occurrence of \<open>w2\<close> in a bucket.
\<close>

theorem length_diff_pairs_exact:
  assumes "sum_index_ok db (most_common_words self)"
  shows "word_pairs_length_diff (find_length_diff_pairs self length_diff) =
           word_pairs_length_diff self @ length_diff_pairs (most_common_words self) length_diff \<and>
         set (length_diff_pairs (most_common_words self) length_diff) =
           {(w1, w2). \<exists>(key, words)\<in>set (most_common_words self).
                        w1 \<in> set words \<and> w2 \<in> set words \<and>
                        int (length w2) - int (length w1) = length_diff} \<and>
         (\<forall>(w1, w2)\<in>set (length_diff_pairs (most_common_words self) length_diff).
            calculate db w1 = calculate db w2 \<and>
            int (length w2) - int (length w1) = length_diff) \<and>
         (\<forall>w1 w2. count_list (length_diff_pairs (most_common_words self) length_diff) (w1, w2) =
            (\<Sum>(key, words)\<leftarrow>most_common_words self.
               if int (length w2) = int (length w1) + length_diff
               then count_list words w1 * count_list words w2 else 0))"
proof -
  have same: "calculate db w1 = calculate db w2 \<and>
              int (length w2) - int (length w1) = length_diff"
    if "(w1, w2) \<in> set (length_diff_pairs (most_common_words self) length_diff)" for w1 w2
  proof -
    from that obtain key words where "(key, words) \<in> set (most_common_words self)"
      "w1 \<in> set words" "w2 \<in> set words" "int (length w2) - int (length w1) = length_diff"
      unfolding set_length_diff_pairs by blast
    with assms show ?thesis
      by (auto simp: sum_index_ok_def)
  qed
  have "word_pairs_length_diff (find_length_diff_pairs self length_diff) =
          word_pairs_length_diff self @ length_diff_pairs (most_common_words self) length_diff"
    by (simp add: find_length_diff_pairs_def)
  moreover note set_length_diff_pairs [of "most_common_words self" length_diff]
  moreover from same
  have "\<forall>(w1, w2)\<in>set (length_diff_pairs (most_common_words self) length_diff).
            calculate db w1 = calculate db w2 \<and>
            int (length w2) - int (length w1) = length_diff"
    by blast
  moreover
  have "\<forall>w1 w2. count_list (length_diff_pairs (most_common_words self) length_diff) (w1, w2) =
            (\<Sum>(key, words)\<leftarrow>most_common_words self.
               if int (length w2) = int (length w1) + length_diff
               then count_list words w1 * count_list words w2 else 0)"
    by (simp add: count_length_diff_pairs)
  ultimately show ?thesis
    by blast
qed

theorem length_diff_pairs_exact_witness:
  "sum_index_ok sample_db [(3, [str ''ab'', str ''c'', str ''ba'']), (1, [str ''a''])] \<and>
   word_pairs_length_diff
     (find_length_diff_pairs
        (init\<lparr>most_common_words := [(3, [str ''ab'', str ''c'', str ''ba'']), (1, [str ''a''])]\<rparr>) 1)
     = [(str ''c'', str ''ab''), (str ''c'', str ''ba'')] \<and>
   calculate sample_db (str ''c'') = calculate sample_db (str ''ab'') \<and>
   int (length (str ''ab'')) - int (length (str ''c'')) = 1"
proof -
  define self where
    "self = init\<lparr>most_common_words := [(3, [str ''ab'', str ''c'', str ''ba'']), (1, [str ''a''])]\<rparr>"
  have idx: "most_common_words self = [(3, [str ''ab'', str ''c'', str ''ba'']), (1, [str ''a''])]"
    by (simp add: self_def)
  have ok: "sum_index_ok sample_db (most_common_words self)"
    unfolding idx by code_simp
  have pairs: "length_diff_pairs (most_common_words self) 1
                 = [(str ''c'', str ''ab''), (str ''c'', str ''ba'')]"
    unfolding idx by code_simp
  have old: "word_pairs_length_diff self = []"
    by (simp add: self_def init_def)
  from length_diff_pairs_exact [OF ok, of 1] pairs old ok show ?thesis
    unfolding idx self_def [symmetric] by auto
qed

section \<open>Pairs with no letter in common\<close>

lemma set_bucket_no_common_pairs:
  "set (bucket_no_common_pairs vals) =
     {(vals ! i, vals ! j) | i j. i < j \<and> j < length vals \<and> set (vals ! i) \<inter> set (vals ! j) = {}}"
  (is "?L = ?R")
proof
  show "?L \<subseteq> ?R"
  proof
    fix p assume "p \<in> ?L"
    then obtain i j where "i < length vals - 1" "i + 1 \<le> j" "j < length vals"
      "set (vals ! i) \<inter> set (vals ! j) = {}" "p = (vals ! i, vals ! j)"
      by (auto simp: bucket_no_common_pairs_def Let_def split: if_splits)
    then have "p = (vals ! i, vals ! j) \<and> i < j \<and> j < length vals \<and>
                 set (vals ! i) \<inter> set (vals ! j) = {}"
      by simp
    then show "p \<in> ?R" by blast
  qed
  show "?R \<subseteq> ?L"
  proof
    fix p assume "p \<in> ?R"
    then obtain i j where p: "p = (vals ! i, vals ! j)" and ij: "i < j" "j < length vals"
      and d: "set (vals ! i) \<inter> set (vals ! j) = {}"
      by blast
    define f where "f = (\<lambda>start end.
        if set (vals ! start) \<inter> set (vals ! end) = {}
        then [(vals ! start, vals ! end)] else [])"
    from ij have n: "2 \<le> length vals" and i: "i \<in> set [0..<length vals - 1]"
      and j: "j \<in> set [i + 1..<length vals]"
      by auto
    from d p have "p \<in> set (f i j)"
      by (simp add: f_def)
    with j have "\<exists>e\<in>set [i + 1..<length vals]. p \<in> set (f i e)"
      by (rule rev_bexI)
    then have "p \<in> set (concat (map (f i) [i + 1..<length vals]))"
      by simp
    with i have "\<exists>s\<in>set [0..<length vals - 1].
                   p \<in> set (concat (map (f s) [s + 1..<length vals]))"
      by (rule rev_bexI)
    then have "p \<in> set (concat (map (\<lambda>s. concat (map (f s) [s + 1..<length vals]))
                         [0..<length vals - 1]))"
      by simp
    moreover have "bucket_no_common_pairs vals =
        concat (map (\<lambda>s. concat (map (f s) [s + 1..<length vals])) [0..<length vals - 1])"
      using n by (simp add: bucket_no_common_pairs_def Let_def f_def)
    ultimately show "p \<in> ?L"
      by simp
  qed
qed

lemma set_no_common_pairs:
  "set (no_common_pairs index min_sum) =
     {(vals ! i, vals ! j) | key vals i j.
        (key, vals) \<in> set index \<and> min_sum < key \<and> 2 \<le> length vals \<and>
        i < j \<and> j < length vals \<and> set (vals ! i) \<inter> set (vals ! j) = {}}"
  (is "?L = ?R")
proof
  show "?L \<subseteq> ?R"
  proof
    fix p assume "p \<in> ?L"
    then obtain key vals where e: "(key, vals) \<in> set index" "min_sum < key"
      and "p \<in> set (bucket_no_common_pairs vals)"
      unfolding no_common_pairs_def by (auto split: if_splits)
    then obtain i j where p: "p = (vals ! i, vals ! j)" "i < j" "j < length vals"
      "set (vals ! i) \<inter> set (vals ! j) = {}"
      unfolding set_bucket_no_common_pairs by blast
    then have "2 \<le> length vals" by simp
    with e p show "p \<in> ?R" by blast
  qed
  show "?R \<subseteq> ?L"
  proof
    fix p assume "p \<in> ?R"
    then obtain key vals i j where e: "(key, vals) \<in> set index" "min_sum < key"
      and p: "p = (vals ! i, vals ! j)" "i < j" "j < length vals"
        "set (vals ! i) \<inter> set (vals ! j) = {}"
      by blast
    from p have "p \<in> set (bucket_no_common_pairs vals)"
      unfolding set_bucket_no_common_pairs by blast
    with e show "p \<in> ?L"
      unfolding no_common_pairs_def by (auto intro!: bexI [of _ "(key, vals)"])
  qed
qed

text \<open>
  C7. On a sum index whose buckets hold words of the bucket's sum, the pairs
  \<^verbatim>\<open>_find_no_common_pairs\<close> appends are exactly the pairs \<open>(vals[i], vals[j])\<close> with
  \<open>i < j\<close> of one bucket whose key is strictly above \<open>min_sum\<close> and which holds at
  least two words, for which the character sets of the two words are disjoint: no pair
  goes across buckets. So the two words of every pair have the same letter sum, that sum
  is strictly above \<open>min_sum\<close>, and they share no character.
\<close>

theorem no_common_pairs_exact:
  assumes "sum_index_ok db (most_common_words self)"
  shows "word_pairs_no_common (find_no_common_pairs self min_sum) =
           word_pairs_no_common self @ no_common_pairs (most_common_words self) min_sum \<and>
         set (no_common_pairs (most_common_words self) min_sum) =
           {(vals ! i, vals ! j) | key vals i j.
              (key, vals) \<in> set (most_common_words self) \<and> min_sum < key \<and> 2 \<le> length vals \<and>
              i < j \<and> j < length vals \<and> set (vals ! i) \<inter> set (vals ! j) = {}} \<and>
         (\<forall>(w1, w2)\<in>set (no_common_pairs (most_common_words self) min_sum).
            calculate db w1 = calculate db w2 \<and> min_sum < calculate db w1 \<and>
            set w1 \<inter> set w2 = {})"
proof -
  have "calculate db w1 = calculate db w2 \<and> min_sum < calculate db w1 \<and> set w1 \<inter> set w2 = {}"
    if "(w1, w2) \<in> set (no_common_pairs (most_common_words self) min_sum)" for w1 w2
  proof -
    from that obtain key vals i j where e: "(key, vals) \<in> set (most_common_words self)"
      "min_sum < key" and p: "w1 = vals ! i" "w2 = vals ! j" "i < j" "j < length vals"
      "set (vals ! i) \<inter> set (vals ! j) = {}"
      unfolding set_no_common_pairs by blast
    from p have "w1 \<in> set vals" "w2 \<in> set vals" by auto
    with assms e have "calculate db w1 = key" "calculate db w2 = key"
      by (auto simp: sum_index_ok_def)
    with e p show ?thesis by simp
  qed
  then show ?thesis
    by (auto simp: find_no_common_pairs_def set_no_common_pairs [symmetric])
qed

theorem no_common_pairs_exact_witness:
  "sum_index_ok sample_db [(3, [str ''ab'', str ''c'', str ''ba'']), (1, [str ''a''])] \<and>
   word_pairs_no_common
     (find_no_common_pairs
        (init\<lparr>most_common_words := [(3, [str ''ab'', str ''c'', str ''ba'']), (1, [str ''a''])]\<rparr>) 2)
     = [(str ''ab'', str ''c''), (str ''c'', str ''ba'')] \<and>
   calculate sample_db (str ''ab'') = calculate sample_db (str ''c'') \<and>
   2 < calculate sample_db (str ''ab'') \<and> set (str ''ab'') \<inter> set (str ''c'') = {}"
proof -
  define self where
    "self = init\<lparr>most_common_words := [(3, [str ''ab'', str ''c'', str ''ba'']), (1, [str ''a''])]\<rparr>"
  have idx: "most_common_words self = [(3, [str ''ab'', str ''c'', str ''ba'']), (1, [str ''a''])]"
    by (simp add: self_def)
  have ok: "sum_index_ok sample_db (most_common_words self)"
    unfolding idx by code_simp
  have pairs: "no_common_pairs (most_common_words self) 2
                 = [(str ''ab'', str ''c''), (str ''c'', str ''ba'')]"
    unfolding idx by code_simp
  have old: "word_pairs_no_common self = []"
    by (simp add: self_def init_def)
  from no_common_pairs_exact [OF ok, of 2] pairs old ok show ?thesis
    unfolding idx self_def [symmetric] by auto
qed

section \<open>The longest list\<close>

subsection \<open>Every chain is a chain\<close>

lemma scan_sums_Some:
  "scan_sums d len sums = Some (s, w) \<Longrightarrow>
     s \<in> set sums \<and> map_of d (len, s) = Some w \<and> w \<noteq> []"
  by (induction sums) (auto simp: dict_get_def Let_def split: if_splits option.splits)

lemma chain_ok_last:
  assumes "chain_ok db chain" and "a \<in> set chain"
  shows "length (last chain) \<le> length a \<and> calculate db a \<le> calculate db (last chain)"
proof (cases "a = last chain")
  case True
  then show ?thesis by simp
next
  case False
  from assms(2) have ne: "chain \<noteq> []" by auto
  then have split: "chain = butlast chain @ [last chain]" by simp
  with assms(2) False have "a \<in> set (butlast chain)"
    by (metis Un_iff empty_iff insert_iff list.set(1) list.set(2) set_append)
  moreover from assms(1) split
  have "sorted_wrt (\<lambda>a b. length b < length a \<and> calculate db a < calculate db b)
          (butlast chain @ [last chain])"
    by (simp add: chain_ok_def)
  ultimately show ?thesis
    by (auto simp: sorted_wrt_append)
qed

lemma chain_ok_snoc:
  assumes "chain_ok db chain" and "chain \<noteq> []"
    and "length w < length (last chain)" and "calculate db (last chain) < calculate db w"
  shows "chain_ok db (chain @ [w])"
proof -
  have "length w < length a \<and> calculate db a < calculate db w" if "a \<in> set chain" for a
    using chain_ok_last [OF assms(1) that] assms(3,4) by simp
  with assms(1) show ?thesis
    by (simp add: chain_ok_def sorted_wrt_append)
qed

lemma chain_inv_mono: "chain_inv db self b chain \<Longrightarrow> b' \<le> b \<Longrightarrow> chain_inv db self b' chain"
  by (simp add: chain_inv_def)

lemma found_word:
  assumes "index_consistent db self"
    and "scan_sums (words_length_and_sum self) len sums = Some (s, w)"
  shows "s \<in> set sums \<and> length w = len \<and> calculate db w = s \<and>
         w \<in> snd ` set (words_length_and_sum self)"
proof -
  from scan_sums_Some [OF assms(2)]
  have s: "s \<in> set sums" and m: "map_of (words_length_and_sum self) (len, s) = Some w"
    by simp_all
  from m have e: "((len, s), w) \<in> set (words_length_and_sum self)"
    by (rule map_of_SomeD)
  with assms(1) have "length w = len \<and> calculate db w = s"
    by (auto simp: index_consistent_def)
  moreover from e have "w \<in> snd ` set (words_length_and_sum self)"
    by force
  ultimately show ?thesis using s by simp
qed

lemma extend_chain_inv:
  assumes cons: "index_consistent db self"
    and inv: "chain_inv db self b chain" and lt: "len < b"
    and ext: "extend_chain db self len chain = Inr (chain', new)"
  shows "chain_inv db self len chain' \<and> (\<forall>c\<in>set new. chain_inv db self len c)"
proof -
  from inv have ne: "chain \<noteq> []" by (simp add: chain_inv_def)
  from inv lt have old: "chain_inv db self len chain"
    by (simp add: chain_inv_mono)
  show ?thesis
  proof (cases "scan_sums (words_length_and_sum self) len
                  [calculate db (last chain) + 1..MAXSUM self - 1]")
    case None
    with ext ne have "chain' = chain" "new = []"
      by (simp_all add: extend_chain_def Let_def)
    with old show ?thesis by simp
  next
    case (Some found)
    obtain s w where found: "found = (s, w)" by (cases found)
    from found_word [OF cons Some [unfolded found]]
    have s: "calculate db (last chain) + 1 \<le> s" "s < MAXSUM self"
      and w: "length w = len" "calculate db w = s"
      "w \<in> snd ` set (words_length_and_sum self)"
      by simp_all
    from inv lt w have "length w < length (last chain)"
      by (simp add: chain_inv_def)
    moreover from s w have "calculate db (last chain) < calculate db w"
      by simp
    ultimately have "chain_ok db (chain @ [w])"
      using inv ne by (simp add: chain_ok_snoc chain_inv_def)
    with inv w s have longer: "chain_inv db self len (chain @ [w])"
      by (simp add: chain_inv_def)
    from ext ne Some found
    have "(chain' = chain @ [w] \<and> new = []) \<or> (chain' = chain \<and> new = [chain @ [w]])"
      by (auto simp: extend_chain_def Let_def split: if_splits)
    with old longer show ?thesis by auto
  qed
qed

lemma extend_chains_inv:
  assumes "index_consistent db self" and "len < b"
  shows "\<forall>c\<in>set chainlist. chain_inv db self b c \<Longrightarrow>
         extend_chains db self len chainlist = Inr (chainlist', templist) \<Longrightarrow>
         \<forall>c\<in>set chainlist' \<union> set templist. chain_inv db self len c"
proof (induction chainlist arbitrary: chainlist' templist)
  case Nil
  then show ?case by simp
next
  case (Cons chain rest)
  from Cons.prems(2) obtain chain' new rest' templist' where
    one: "extend_chain db self len chain = Inr (chain', new)"
    and more: "extend_chains db self len rest = Inr (rest', templist')"
    and res: "chainlist' = chain' # rest'" "templist = new @ templist'"
    by (auto split: sum.splits prod.splits)
  from Cons.prems(1) have "chain_inv db self b chain" by simp
  from extend_chain_inv [OF assms(1) this assms(2) one]
  have "chain_inv db self len chain'" "\<forall>c\<in>set new. chain_inv db self len c"
    by simp_all
  moreover from Cons.IH [OF _ more] Cons.prems(1)
  have "\<forall>c\<in>set rest' \<union> set templist'. chain_inv db self len c"
    by simp
  ultimately show ?case
    using res by auto
qed

lemma length_step_inv:
  assumes cons: "index_consistent db self" and lt: "len < b"
    and inv: "\<forall>c\<in>set chainlist. chain_inv db self b c"
    and step: "length_step db self len chainlist = Inr chainlist'"
  shows "\<forall>c\<in>set chainlist'. chain_inv db self len c"
proof -
  from step obtain cl tl where ext: "extend_chains db self len chainlist = Inr (cl, tl)"
    by (auto simp: length_step_def split: sum.splits prod.splits)
  from extend_chains_inv [OF cons lt inv ext]
  have old: "\<forall>c\<in>set cl \<union> set tl. chain_inv db self len c" .
  show ?thesis
  proof (cases "scan_sums (words_length_and_sum self) len [1..MAXSUM self - 1]")
    case None
    with step ext have "chainlist' = cl @ tl"
      by (simp add: length_step_def)
    with old show ?thesis by auto
  next
    case (Some found)
    obtain s w where found: "found = (s, w)" by (cases found)
    from found_word [OF cons Some [unfolded found]]
    have "length w = len" "w \<in> snd ` set (words_length_and_sum self)"
      "calculate db w < MAXSUM self"
      by simp_all
    then have "chain_inv db self len [w]"
      by (simp add: chain_inv_def chain_ok_def)
    moreover from step ext Some found have "chainlist' = cl @ tl @ [[w]]"
      by (simp add: length_step_def)
    ultimately show ?thesis using old by auto
  qed
qed

lemma length_loop_inv:
  assumes "index_consistent db self"
  shows "sorted_wrt (>) lens \<Longrightarrow> \<forall>l\<in>set lens. l < b \<Longrightarrow>
         \<forall>c\<in>set chainlist. chain_inv db self b c \<Longrightarrow>
         length_loop db self lens chainlist = Inr chainlist' \<Longrightarrow>
         \<forall>c\<in>set chainlist'. chain_inv db self 0 c"
proof (induction lens arbitrary: b chainlist)
  case Nil
  then show ?case by (auto intro: chain_inv_mono)
next
  case (Cons len lens)
  from Cons.prems(4) obtain cl where step: "length_step db self len chainlist = Inr cl"
    and loop: "length_loop db self lens cl = Inr chainlist'"
    by (auto split: sum.splits)
  from Cons.prems(2) have "len < b" by simp
  from length_step_inv [OF assms this Cons.prems(3) step]
  have "\<forall>c\<in>set cl. chain_inv db self len c" .
  moreover from Cons.prems(1) have "sorted_wrt (>) lens" "\<forall>l\<in>set lens. l < len"
    by auto
  ultimately show ?case
    using Cons.IH loop by blast
qed

lemma max_by_len_in: "max_by_len chainlist = Inr c \<Longrightarrow> c \<in> set chainlist"
proof -
  have "foldl (\<lambda>best x. if length best < length x then x else best) c0 cs \<in> set (c0 # cs)"
    for c0 :: "'a list" and cs
    by (induction cs arbitrary: c0) (auto split: if_splits)
  then show "max_by_len chainlist = Inr c \<Longrightarrow> c \<in> set chainlist"
    by (cases chainlist) auto
qed

lemma lengths_descending:
  "sorted_wrt (>) (rev [m..<n]) \<and> (\<forall>l\<in>set (rev [m..<n]). l < n)"
  by (simp add: sorted_wrt_rev)

lemma find_longest_unique_inv:
  assumes "index_consistent db self" and "find_longest_unique db self = Inr chain"
  shows "chain_inv db self 0 chain"
proof -
  from assms(2) obtain chainlist where
    loop: "length_loop db self (rev [1..<Suc (MAXLEN self)]) [] = Inr chainlist"
    and best: "max_by_len chainlist = Inr chain"
    by (auto simp: find_longest_unique_def split: sum.splits)
  have "\<forall>c\<in>set chainlist. chain_inv db self 0 c"
    using length_loop_inv [OF assms(1) _ _ _ loop, of "Suc (MAXLEN self)"]
      lengths_descending [of 1 "Suc (MAXLEN self)"]
    by simp
  with max_by_len_in [OF best] show ?thesis by blast
qed

lemma index_words:
  "snd ` set (words_length_and_sum (process_lines db self lines))
     \<subseteq> snd ` set (words_length_and_sum self) \<union> set lines"
proof (induction lines arbitrary: self)
  case Nil
  show ?case by (simp add: process_lines_Nil)
next
  case (Cons line lines)
  have "snd ` set (words_length_and_sum (process_line db self line))
          \<subseteq> insert line (snd ` set (words_length_and_sum self))"
    using set_dict_set [of "(length line, calculate db line)" line "words_length_and_sum self"]
    by (auto simp: process_line_fields)
  with Cons.IH [of "process_line db self line"] show ?case
    by (auto simp: process_lines_Cons)
qed

lemma distinct_map_sorted_wrt:
  "sorted_wrt (\<lambda>a b. f a \<noteq> f b) xs \<Longrightarrow> distinct (map f xs)"
  by (induction xs) auto

text \<open>
  C5. Whenever \<^verbatim>\<open>find_longest_unique\<close> returns a list on the index built from a
  corpus, the list is not empty, its word lengths are strictly descending and its letter
  sums strictly ascending (between any two of its words in order, so between consecutive
  ones), no two of its words have the same length or the same letter sum, and each of its
  words is a line of the corpus.
\<close>

theorem longest_unique_chain:
  assumes "find_longest_unique db (process_lines db init lines) = Inr chain"
  shows "chain \<noteq> [] \<and>
         sorted_wrt (\<lambda>a b. length b < length a \<and> calculate db a < calculate db b) chain \<and>
         (\<forall>i. Suc i < length chain \<longrightarrow>
              length (chain ! Suc i) < length (chain ! i) \<and>
              calculate db (chain ! i) < calculate db (chain ! Suc i)) \<and>
         distinct (map length chain) \<and> distinct (map (calculate db) chain) \<and>
         set chain \<subseteq> set lines"
proof -
  have "index_consistent db (process_lines db init lines)"
    by (simp add: process_lines_consistent init_consistent)
  from find_longest_unique_inv [OF this assms]
  have ne: "chain \<noteq> []"
    and ok: "sorted_wrt (\<lambda>a b. length b < length a \<and> calculate db a < calculate db b) chain"
    and sub: "set chain \<subseteq> snd ` set (words_length_and_sum (process_lines db init lines))"
    by (simp_all add: chain_inv_def chain_ok_def)
  from ok have "sorted_wrt (\<lambda>a b. length a \<noteq> length b) chain"
    by (rule sorted_wrt_mono_rel [rotated]) auto
  then have d1: "distinct (map length chain)"
    by (rule distinct_map_sorted_wrt)
  from ok have "sorted_wrt (\<lambda>a b. calculate db a \<noteq> calculate db b) chain"
    by (rule sorted_wrt_mono_rel [rotated]) auto
  then have d2: "distinct (map (calculate db) chain)"
    by (rule distinct_map_sorted_wrt)
  from sub index_words [of db init lines] have words: "set chain \<subseteq> set lines"
    by (auto simp: init_def)
  from ok have "\<forall>i. Suc i < length chain \<longrightarrow>
              length (chain ! Suc i) < length (chain ! i) \<and>
              calculate db (chain ! i) < calculate db (chain ! Suc i)"
    by (simp add: sorted_wrt_iff_nth_less)
  with ne ok d1 d2 words show ?thesis by simp
qed

theorem longest_unique_chain_witness:
  "find_longest_unique sample_db
     (process_lines sample_db init (map str [''abc'', ''bd'', ''z'', ''zz'']))
     = Inr [str ''abc'', str ''z''] \<and>
   sorted_wrt (\<lambda>a b. length b < length a \<and> calculate sample_db a < calculate sample_db b)
     [str ''abc'', str ''z''] \<and>
   distinct (map length [str ''abc'', str ''z'']) \<and>
   distinct (map (calculate sample_db) [str ''abc'', str ''z'']) \<and>
   set [str ''abc'', str ''z''] \<subseteq> set (map str [''abc'', ''bd'', ''z'', ''zz''])"
proof -
  have run: "find_longest_unique sample_db
     (process_lines sample_db init (map str [''abc'', ''bd'', ''z'', ''zz'']))
     = Inr [str ''abc'', str ''z'']"
    by code_simp
  from longest_unique_chain [OF run] run show ?thesis
    by blast
qed

subsection \<open>No other error\<close>

lemma extend_chain_nonempty:
  assumes "chain \<noteq> []"
  shows "\<exists>chain' new. extend_chain db self len chain = Inr (chain', new) \<and>
           chain' \<noteq> [] \<and> (\<forall>c\<in>set new. c \<noteq> [])"
  using assms by (auto simp: extend_chain_def Let_def split: option.splits)

lemma extend_chains_nonempty:
  "\<forall>c\<in>set chainlist. c \<noteq> [] \<Longrightarrow>
     \<exists>chainlist' templist. extend_chains db self len chainlist = Inr (chainlist', templist) \<and>
        (\<forall>c\<in>set chainlist' \<union> set templist. c \<noteq> [])"
proof (induction chainlist)
  case Nil
  show ?case by simp
next
  case (Cons chain rest)
  from Cons.prems have "chain \<noteq> []" by simp
  from extend_chain_nonempty [OF this, of db self len]
  obtain chain' new where one: "extend_chain db self len chain = Inr (chain', new)"
    "chain' \<noteq> []" "\<forall>c\<in>set new. c \<noteq> []"
    by blast
  from Cons.IH Cons.prems
  obtain rest' templist where more: "extend_chains db self len rest = Inr (rest', templist)"
    "\<forall>c\<in>set rest' \<union> set templist. c \<noteq> []"
    by auto
  from one more show ?case by auto
qed

lemma length_step_nonempty:
  assumes "\<forall>c\<in>set chainlist. c \<noteq> []"
  shows "\<exists>chainlist'. length_step db self len chainlist = Inr chainlist' \<and>
           (\<forall>c\<in>set chainlist'. c \<noteq> [])"
proof -
  from extend_chains_nonempty [OF assms, of db self len]
  obtain cl tl where "extend_chains db self len chainlist = Inr (cl, tl)"
    "\<forall>c\<in>set cl \<union> set tl. c \<noteq> []"
    by blast
  then show ?thesis
    by (auto simp: length_step_def split: option.splits)
qed

lemma length_loop_nonempty:
  "\<forall>c\<in>set chainlist. c \<noteq> [] \<Longrightarrow>
     \<exists>chainlist'. length_loop db self lens chainlist = Inr chainlist'"
proof (induction lens arbitrary: chainlist)
  case Nil
  show ?case by simp
next
  case (Cons len lens)
  from length_step_nonempty [OF Cons.prems, of db self len]
  obtain cl where "length_step db self len chainlist = Inr cl" "\<forall>c\<in>set cl. c \<noteq> []"
    by blast
  with Cons.IH [of cl] show ?case by simp
qed

lemma find_longest_unique_error:
  "find_longest_unique db self = Inl e \<Longrightarrow>
     e = ValueError \<and> length_loop db self (rev [1..<Suc (MAXLEN self)]) [] = Inr []"
proof -
  assume err: "find_longest_unique db self = Inl e"
  from length_loop_nonempty [of "[]" db self "rev [1..<Suc (MAXLEN self)]"]
  obtain chainlist where loop: "length_loop db self (rev [1..<Suc (MAXLEN self)]) [] = Inr chainlist"
    by auto
  with err have "max_by_len chainlist = Inl e"
    by (simp add: find_longest_unique_def)
  then have "chainlist = [] \<and> e = ValueError"
    by (cases chainlist) auto
  with loop show ?thesis by simp
qed

lemma chain_below_max_sum:
  assumes "find_longest_unique db (process_lines db init lines) = Inr chain"
  shows "chain \<noteq> [] \<and> set chain \<subseteq> set lines \<and>
         (\<forall>w\<in>set chain. calculate db w < MAXSUM (process_lines db init lines))"
proof -
  have "index_consistent db (process_lines db init lines)"
    by (simp add: process_lines_consistent init_consistent)
  from find_longest_unique_inv [OF this assms] index_words [of db init lines]
  show ?thesis
    by (auto simp: chain_inv_def init_def)
qed

text \<open>
  C3. There is a non-empty corpus on which \<^verbatim>\<open>find_longest_unique\<close> raises instead of
  returning a list: on the one-word corpus \<open>a\<close> the letter sum of the only word is the
  maximal sum \<open>MAXSUM\<close>, and the result is the ValueError of \<^verbatim>\<open>max\<close> over an empty
  list. The reason is general. Both loops over the sums run over \<^verbatim>\<open>range(..., MAXSUM)\<close>,
  which leaves \<open>MAXSUM\<close> out, so every word of a list that is returned has a letter sum
  strictly below \<open>MAXSUM\<close>; and on a corpus all of whose words have the letter sum
  \<open>MAXSUM\<close> no chain is started and the call raises ValueError.
\<close>

theorem max_sum_word_raises:
  "find_longest_unique db (process_lines db init [str ''a'']) = Inl ValueError \<and>
   MAXSUM (process_lines db init [str ''a'']) = calculate db (str ''a'') \<and>
   (find_longest_unique db (process_lines db init lines) = Inr chain \<longrightarrow>
      (\<forall>w\<in>set chain. calculate db w < MAXSUM (process_lines db init lines))) \<and>
   ((\<forall>w\<in>set lines. calculate db w = MAXSUM (process_lines db init lines)) \<longrightarrow>
      find_longest_unique db (process_lines db init lines) = Inl ValueError)"
proof -
  have one: "find_longest_unique db (process_lines db init [str ''a'']) = Inl ValueError \<and>
      MAXSUM (process_lines db init [str ''a'']) = calculate db (str ''a'')"
    by code_simp
  have two: "\<forall>w\<in>set chain. calculate db w < MAXSUM (process_lines db init lines)"
    if "find_longest_unique db (process_lines db init lines) = Inr chain"
    using chain_below_max_sum [OF that] by simp
  have three: "find_longest_unique db (process_lines db init lines) = Inl ValueError"
    if all: "\<forall>w\<in>set lines. calculate db w = MAXSUM (process_lines db init lines)"
  proof (cases "find_longest_unique db (process_lines db init lines)")
    case (Inl e)
    with find_longest_unique_error [OF Inl] show ?thesis by simp
  next
    case (Inr c)
    from chain_below_max_sum [OF Inr] obtain w where "w \<in> set lines"
      "calculate db w < MAXSUM (process_lines db init lines)"
      by (cases c) auto
    with all show ?thesis by auto
  qed
  from one two three show ?thesis by blast
qed

theorem max_sum_word_raises_witness:
  "calculate sample_db (str ''a'') = MAXSUM (process_lines sample_db init [str ''a'', str ''A'']) \<and>
   calculate sample_db (str ''A'') = MAXSUM (process_lines sample_db init [str ''a'', str ''A'']) \<and>
   find_longest_unique sample_db (process_lines sample_db init [str ''a'', str ''A''])
     = Inl ValueError \<and>
   find_longest_unique sample_db (process_lines sample_db init [str ''ab'', str ''c'', str ''e''])
     = Inr [str ''ab''] \<and>
   calculate sample_db (str ''ab'')
     < MAXSUM (process_lines sample_db init [str ''ab'', str ''c'', str ''e''])"
proof -
  have sums: "\<forall>w\<in>set [str ''a'', str ''A''].
      calculate sample_db w = MAXSUM (process_lines sample_db init [str ''a'', str ''A''])"
    by code_simp
  have run: "find_longest_unique sample_db
               (process_lines sample_db init [str ''ab'', str ''c'', str ''e''])
     = Inr [str ''ab'']"
    by code_simp
  from max_sum_word_raises [where db = sample_db and lines = "[str ''a'', str ''A'']"] sums
  have "find_longest_unique sample_db (process_lines sample_db init [str ''a'', str ''A''])
          = Inl ValueError"
    by blast
  moreover from max_sum_word_raises
      [where db = sample_db and lines = "[str ''ab'', str ''c'', str ''e'']"
         and chain = "[str ''ab'']"] run
  have "calculate sample_db (str ''ab'')
          < MAXSUM (process_lines sample_db init [str ''ab'', str ''c'', str ''e''])"
    by simp
  ultimately show ?thesis
    using sums run by simp
qed

subsection \<open>The four words\<close>

text \<open>
  C2, evaluated. On the corpus of the four words \<open>geographically\<close>, \<open>eavesdropper\<close>,
  \<open>woodworker\<close>, \<open>oxymorons\<close> the maximal sum is 158, the letter sum of \<open>oxymorons\<close>.
  Both loops over the sums stop before \<open>MAXSUM\<close>, the key \<open>(9, 158)\<close> is never looked up,
  and the list returned holds the first three words only.
\<close>

theorem four_words_chain:
  "find_longest_unique db
     (process_lines db init
        (map str [''geographically'', ''eavesdropper'', ''woodworker'', ''oxymorons'']))
   = Inr (map str [''geographically'', ''eavesdropper'', ''woodworker''])"
  by code_simp

end
